theory Spec2Isabelle
  imports Complex_Main
begin

section \<open>Diff coverage report generator\<close>

text \<open>
  A shallow embedding of \<^verbatim>\<open>diff_cover/report_generator.py\<close>. The module is Python 2
  (\<^verbatim>\<open>__metaclass__\<close>, \<^verbatim>\<open>zip\<close> and \<^verbatim>\<open>range\<close> returning lists): integers are unbounded
  (\<^typ>\<open>int\<close>), a Python set of integers is an \<^typ>\<open>int set\<close>, a raised exception is the
  \<open>Inl\<close> of a sum.
\<close>

type_synonym path = string

datatype error = ZeroDivisionError | IOError

subsection \<open>Python floats\<close>

text \<open>
  A Python float is an IEEE 754 double. A finite double is identified with the rational
  number it denotes, and every arithmetic operation returns the exact result rounded to
  the nearest number with a 53 bit significand, ties to the even significand. The exponent
  range of a double is not modelled: the floats of this module are built from the sizes of
  sets and the constant 100, far from overflow and underflow.
\<close>

type_synonym double = rat

fun bit_length :: "nat \<Rightarrow> nat" where
  "bit_length n = (if n = 0 then 0 else Suc (bit_length (n div 2)))"

declare bit_length.simps [simp del]

definition pow2 :: "int \<Rightarrow> rat" where
  "pow2 e = (if 0 \<le> e then 2 ^ nat e else 1 / 2 ^ nat (- e))"

text \<open>For \<open>0 < x\<close>, \<open>ilog2 x\<close> is the integer \<open>k\<close> with \<open>2\<^sup>k \<le> x < 2\<^sup>k\<^sup>+\<^sup>1\<close>.\<close>

definition ilog2 :: "rat \<Rightarrow> int" where
  "ilog2 x =
     (if 1 \<le> x then int (bit_length (nat \<lfloor>x\<rfloor>)) - 1
      else - int (bit_length (nat (\<lceil>1 / x\<rceil> - 1))))"

definition round_half_even :: "rat \<Rightarrow> int" where
  "round_half_even x =
     (let f = \<lfloor>x\<rfloor>; r = x - of_int f
      in if r < 1 / 2 then f
         else if 1 / 2 < r then f + 1
         else if even f then f else f + 1)"

definition round_pos :: "rat \<Rightarrow> double" where
  "round_pos x = (let e = ilog2 x - 52 in of_int (round_half_even (x / pow2 e)) * pow2 e)"

definition fl :: "rat \<Rightarrow> double" where
  "fl x = (if x = 0 then 0 else if x < 0 then - round_pos (- x) else round_pos x)"

definition float_of_int :: "int \<Rightarrow> double" where
  "float_of_int n = fl (of_int n)"

definition fmul :: "double \<Rightarrow> double \<Rightarrow> double" where
  "fmul x y = fl (x * y)"

definition fsub :: "double \<Rightarrow> double \<Rightarrow> double" where
  "fsub x y = fl (x - y)"

definition fdiv :: "double \<Rightarrow> double \<Rightarrow> error + double" where
  "fdiv x y = (if y = 0 then Inl ZeroDivisionError else Inr (fl (x / y)))"

text \<open>\<^verbatim>\<open>int(x)\<close> of a float truncates towards zero.\<close>

definition int_of_float :: "double \<Rightarrow> int" where
  "int_of_float x = (if 0 \<le> x then \<lfloor>x\<rfloor> else \<lceil>x\<rceil>)"

subsection \<open>The collaborators\<close>

text \<open>
  The violations reporter and the diff reporter live outside this module, which calls
  \<^verbatim>\<open>violations(src_path)\<close> and \<^verbatim>\<open>measured_lines(src_path)\<close> of the first and
  \<^verbatim>\<open>src_paths_changed()\<close> and \<^verbatim>\<open>lines_changed(src_path)\<close> of the second. They are taken
  as pure. What they return is only iterated over, turned into a set or tested for
  membership, so a list stands for any iterable they may return; \<^verbatim>\<open>measured_lines\<close> may
  also return \<^verbatim>\<open>None\<close>. Of a violation only the attribute \<^verbatim>\<open>line\<close> is read.
\<close>

record Violation =
  line :: int

record BaseViolationReporter =
  reporter_violations :: "path \<Rightarrow> Violation list"
  reporter_measured_lines :: "path \<Rightarrow> int list option"

record BaseDiffReporter =
  src_paths_changed :: "path list"
  lines_changed :: "path \<Rightarrow> int list"

subsection \<open>DiffViolations\<close>

record DiffViolations =
  violations :: "Violation list"
  lines :: "int set"
  measured_lines :: "int set"

definition DiffViolations_init ::
  "Violation list \<Rightarrow> int list option \<Rightarrow> int list \<Rightarrow> DiffViolations" where
  "DiffViolations_init vs ml diff_lines =
     \<lparr>violations = vs,
      lines = set (map line vs) \<inter> set diff_lines,
      measured_lines =
        (case ml of None \<Rightarrow> set diff_lines | Some m \<Rightarrow> set m \<inter> set diff_lines)\<rparr>"

subsection \<open>BaseReportGenerator\<close>

record BaseReportGenerator =
  generator_violations :: BaseViolationReporter
  generator_diff :: BaseDiffReporter

text \<open>
  The dictionary \<^verbatim>\<open>_diff_violations\<close>, as the list of its items: one entry for each path
  of \<^verbatim>\<open>src_paths_changed()\<close>. The property is lazy and cached; the collaborators being
  pure, the cache cannot be observed.
\<close>

definition diff_violations :: "BaseReportGenerator \<Rightarrow> (path \<times> DiffViolations) list" where
  "diff_violations g =
     map (\<lambda>src_path.
            (src_path,
             DiffViolations_init
               (reporter_violations (generator_violations g) src_path)
               (reporter_measured_lines (generator_violations g) src_path)
               (lines_changed (generator_diff g) src_path)))
         (remdups (src_paths_changed (generator_diff g)))"

definition src_paths :: "BaseReportGenerator \<Rightarrow> path set" where
  "src_paths g =
     set (map fst (filter (\<lambda>(src, summary). 0 < card (measured_lines summary))
                          (diff_violations g)))"

definition percent_covered :: "BaseReportGenerator \<Rightarrow> path \<Rightarrow> error + double option" where
  "percent_covered g src_path =
     (case map_of (diff_violations g) src_path of
        None \<Rightarrow> Inr None
      | Some dv \<Rightarrow>
          (let uncovered = lines dv
           in case fdiv (float_of_int (int (card uncovered)))
                        (float_of_int (int (card (measured_lines dv)))) of
                Inl e \<Rightarrow> Inl e
              | Inr q \<Rightarrow> Inr (Some (fsub 100 (fmul q 100)))))"

definition missing_lines :: "BaseReportGenerator \<Rightarrow> path \<Rightarrow> int list" where
  "missing_lines g src_path =
     (case map_of (diff_violations g) src_path of
        None \<Rightarrow> []
      | Some dv \<Rightarrow> sorted_list_of_set (lines dv))"

definition total_num_lines :: "BaseReportGenerator \<Rightarrow> int" where
  "total_num_lines g =
     sum_list (map (\<lambda>(src, summary). int (card (measured_lines summary))) (diff_violations g))"

definition total_num_missing :: "BaseReportGenerator \<Rightarrow> int" where
  "total_num_missing g =
     sum_list (map (\<lambda>(src, summary). int (card (lines summary))) (diff_violations g))"

definition total_percent_covered :: "BaseReportGenerator \<Rightarrow> error + int" where
  "total_percent_covered g =
     (let total_lines = total_num_lines g
      in if 0 < total_lines
         then (let num_covered = total_lines - total_num_missing g
               in case fdiv (float_of_int num_covered) (float_of_int total_lines) of
                    Inl e \<Rightarrow> Inl e
                  | Inr q \<Rightarrow> Inr (int_of_float (fmul q 100)))
         else Inr 100)"

subsection \<open>Hunker\<close>

record Hunker =
  src_path :: path
  line_numbers :: "int list"
  diff_reporter :: BaseDiffReporter
  lines_of_context :: int

definition Hunker_init :: "path \<Rightarrow> int list \<Rightarrow> BaseDiffReporter \<Rightarrow> Hunker" where
  "Hunker_init src missing dr =
     \<lparr>src_path = src, line_numbers = missing, diff_reporter = dr, lines_of_context = 2\<rparr>"

text \<open>
  The loop of \<^verbatim>\<open>hunkify\<close> visits the consecutive pairs
  \<^verbatim>\<open>(line_numbers[i], line_numbers[i+1])\<close> for \<^verbatim>\<open>i\<close> in \<^verbatim>\<open>range(len(line_numbers)-1)\<close>.
  The second argument is the part of the list still to visit, starting at
  \<^verbatim>\<open>line_numbers[i]\<close>; \<open>hunks\<close> and \<open>current_hunk\<close> are the two lists the loop
  updates. When no pair is left the loop ends and \<^verbatim>\<open>return hunks\<close> follows:
  \<open>current_hunk\<close> is not read again.
\<close>

fun hunkify_loop :: "int \<Rightarrow> int list \<Rightarrow> int list list \<Rightarrow> int list \<Rightarrow> int list list" where
  "hunkify_loop ctx (a # b # rest) hunks current_hunk =
     (if b - a < 2 * ctx + 2
      then hunkify_loop ctx (b # rest) hunks (current_hunk @ [b])
      else hunkify_loop ctx (b # rest) (hunks @ [current_hunk]) [b])"
| "hunkify_loop ctx rest hunks current_hunk = hunks"

definition hunkify :: "Hunker \<Rightarrow> int list list" where
  "hunkify h =
     (if line_numbers h = [] then []
      else hunkify_loop (lines_of_context h) (line_numbers h) [] [hd (line_numbers h)])"

text \<open>
  The scan rule as the specification words it: seed the first hunk with the first line;
  for each consecutive pair \<open>(a, b)\<close>, \<open>b\<close> joins the current hunk if
  \<open>b - a < 2R + 2\<close>, otherwise the current hunk is closed and appended to the result and a
  new hunk starts with \<open>b\<close>. Every hunk, the one still open at the end of the scan
  included, is part of the result.
\<close>

fun scan_rule_loop :: "int \<Rightarrow> int list \<Rightarrow> int list list \<Rightarrow> int list \<Rightarrow> int list list" where
  "scan_rule_loop R (a # b # rest) hunks current_hunk =
     (if b - a < 2 * R + 2
      then scan_rule_loop R (b # rest) hunks (current_hunk @ [b])
      else scan_rule_loop R (b # rest) (hunks @ [current_hunk]) [b])"
| "scan_rule_loop R rest hunks current_hunk = hunks @ [current_hunk]"

definition scan_rule :: "int \<Rightarrow> int list \<Rightarrow> int list list" where
  "scan_rule R ls = (if ls = [] then [] else scan_rule_loop R ls [] [hd ls])"

text \<open>
  Python's \<^verbatim>\<open>xs[lo:hi]\<close>: a negative bound counts from the end of the list, and a bound
  outside the list is moved to its nearer end. \<^verbatim>\<open>xs[:hi]\<close> is \<^verbatim>\<open>xs[0:hi]\<close>.
\<close>

definition slice_bound :: "int \<Rightarrow> int \<Rightarrow> int" where
  "slice_bound n i = (if i < 0 then max (i + n) 0 else min i n)"

definition slice :: "'a list \<Rightarrow> int \<Rightarrow> int \<Rightarrow> 'a list" where
  "slice xs lo hi =
     (let n = int (length xs); l = slice_bound n lo; u = slice_bound n hi
      in take (nat (u - l)) (drop (nat l) xs))"

text \<open>
  The body of the loop of \<^verbatim>\<open>code_and_context\<close>, for one hunk of \<^verbatim>\<open>hunkify\<close> (which is
  never empty, so \<^verbatim>\<open>hunk[0]\<close> and \<^verbatim>\<open>hunk[-1]\<close> are its first and last element).
  \<^verbatim>\<open>range(a, b + 1)\<close> is \<open>[a..b]\<close>, and \<^verbatim>\<open>zip\<close> stops at the end of the shorter list.
\<close>

definition pad_hunk :: "int \<Rightarrow> string list \<Rightarrow> int list \<Rightarrow> (int \<times> string) list" where
  "pad_hunk ctx content hunk =
     (if hd hunk - ctx < 0
      then zip [0 .. last hunk + ctx] (slice content 0 (last hunk + ctx))
      else zip [hd hunk - ctx .. last hunk + ctx]
               (slice content (hd hunk - ctx - 1) (last hunk + ctx)))"

text \<open>
  The files that can be opened, each with the list \<^verbatim>\<open>readlines()\<close> returns for it;
  \<^verbatim>\<open>open\<close> raises \<^verbatim>\<open>IOError\<close> for any other path.
\<close>

type_synonym files = "path \<Rightarrow> string list option"

definition code_and_context :: "files \<Rightarrow> Hunker \<Rightarrow> error + (int \<times> string) list list" where
  "code_and_context fs h =
     (case fs (src_path h) of
        None \<Rightarrow> Inl IOError
      | Some content \<Rightarrow> Inr (map (pad_hunk (lines_of_context h) content) (hunkify h)))"

record Line =
  line_num :: int
  line_code :: string
  line_type :: string

text \<open>The inner loop of \<^verbatim>\<open>classify\<close>, for one padded hunk.\<close>

definition classify_line :: "Hunker \<Rightarrow> int \<times> string \<Rightarrow> Line" where
  "classify_line h p =
     (if fst p \<in> set (line_numbers h)
      then \<lparr>line_num = fst p, line_code = snd p, line_type = ''VIOLATION''\<rparr>
      else if fst p \<in> set (lines_changed (diff_reporter h) (src_path h))
      then \<lparr>line_num = fst p, line_code = snd p, line_type = ''NEWCONTEXT''\<rparr>
      else \<lparr>line_num = fst p, line_code = snd p, line_type = ''OLDCONTEXT''\<rparr>)"

definition classify_hunk :: "Hunker \<Rightarrow> (int \<times> string) list \<Rightarrow> Line list" where
  "classify_hunk h hunk = map (classify_line h) hunk"

definition classify :: "files \<Rightarrow> Hunker \<Rightarrow> error + Line list list" where
  "classify fs h =
     (case code_and_context fs h of
        Inl e \<Rightarrow> Inl e
      | Inr padded_hunks \<Rightarrow> Inr (map (classify_hunk h) padded_hunks))"

subsection \<open>An example diff\<close>

text \<open>
  A report generator over a diff of the single file \<^verbatim>\<open>a.py\<close>, whose reporters answer
  with the given violations, measured lines and changed lines.
\<close>

definition example_generator ::
  "Violation list \<Rightarrow> int list option \<Rightarrow> int list \<Rightarrow> BaseReportGenerator" where
  "example_generator vs ml dl =
     \<lparr>generator_violations =
        \<lparr>reporter_violations = (\<lambda>p. vs), reporter_measured_lines = (\<lambda>p. ml)\<rparr>,
      generator_diff = \<lparr>src_paths_changed = [''a.py''], lines_changed = (\<lambda>p. dl)\<rparr>\<rparr>"

text \<open>
  The files of the example: only \<^verbatim>\<open>a.py\<close> can be opened, and has the given lines. The
  example hunker has the missing lines 10 and 20 of a file of twelve lines, and
  \<open>example_hunk\<close> is the one classified hunk it yields.
\<close>

definition example_files :: "string list \<Rightarrow> files" where
  "example_files content = (\<lambda>p. if p = ''a.py'' then Some content else None)"

definition example_content :: "string list" where
  "example_content = [''a'', ''b'', ''c'', ''d'', ''e'', ''f'', ''g'', ''h'', ''i'', ''j'', ''k'', ''l'']"

definition example_hunker :: Hunker where
  "example_hunker =
     Hunker_init ''a.py'' [10, 20] \<lparr>src_paths_changed = [''a.py''], lines_changed = (\<lambda>p. [9, 10, 11, 20])\<rparr>"

definition example_hunk :: "Line list" where
  "example_hunk =
     [\<lparr>line_num = 8, line_code = ''h'', line_type = ''OLDCONTEXT''\<rparr>,
      \<lparr>line_num = 9, line_code = ''i'', line_type = ''NEWCONTEXT''\<rparr>,
      \<lparr>line_num = 10, line_code = ''j'', line_type = ''VIOLATION''\<rparr>,
      \<lparr>line_num = 11, line_code = ''k'', line_type = ''NEWCONTEXT''\<rparr>,
      \<lparr>line_num = 12, line_code = ''l'', line_type = ''OLDCONTEXT''\<rparr>]"

section \<open>Rounding to a double\<close>

text \<open>
  The facts about rounding that the report generator relies on: rounding is monotone, keeps
  the sign, and leaves 0, 1 and 100 unchanged.
\<close>

lemma bit_length_bounds:
  "0 < n \<Longrightarrow> 2 ^ (bit_length n - 1) \<le> n \<and> n < 2 ^ bit_length n"
proof (induction n rule: bit_length.induct)
  case (1 n)
  show ?case
  proof (cases "n div 2 = 0")
    case True
    with "1.prems" have "n = 1" by presburger
    then show ?thesis by (simp add: bit_length.simps)
  next
    case False
    then have pos: "0 < n div 2" by simp
    from "1.IH" [OF _ pos] "1.prems"
    have ih: "2 ^ (bit_length (n div 2) - 1) \<le> n div 2" "n div 2 < 2 ^ bit_length (n div 2)"
      by auto
    have bl: "bit_length n = Suc (bit_length (n div 2))"
      using "1.prems" by (subst bit_length.simps) simp
    have "0 < bit_length (n div 2)"
      using pos by (subst bit_length.simps) simp
    then have e: "(2::nat) ^ (bit_length n - 1) = 2 * 2 ^ (bit_length (n div 2) - 1)"
      using bl by (cases "bit_length (n div 2)") simp_all
    have "2 * 2 ^ (bit_length (n div 2) - 1) \<le> 2 * (n div 2)" using ih(1) by simp
    also have "\<dots> \<le> n" by simp
    finally have lower: "2 ^ (bit_length n - 1) \<le> n" using e by simp
    have "n < 2 * (n div 2) + 2" by presburger
    also have "\<dots> \<le> 2 * 2 ^ bit_length (n div 2)" using ih(2) by simp
    finally have "n < 2 ^ bit_length n" using bl by simp
    with lower show ?thesis by simp
  qed
qed

lemma pow2_powi: "pow2 e = 2 powi e"
  by (simp add: pow2_def power_int_def field_simps)

lemma pow2_pos [simp]: "0 < pow2 e"
  by (simp add: pow2_def)

lemma pow2_nonneg [simp]: "0 \<le> pow2 e"
  by (simp add: pow2_def)

lemma pow2_add: "pow2 (a + b) = pow2 a * pow2 b"
  by (simp add: pow2_powi power_int_add)

lemma pow2_mono: "a \<le> b \<Longrightarrow> pow2 a \<le> pow2 b"
  by (simp add: pow2_powi power_int_increasing)

lemma pow2_strict_mono: "a < b \<Longrightarrow> pow2 a < pow2 b"
  by (simp add: pow2_powi power_int_strict_increasing)

lemma pow2_nat: "pow2 (int n) = 2 ^ n"
  by (simp add: pow2_def)

lemma pow2_neg_nat: "pow2 (- int n) = 1 / 2 ^ n"
  by (simp add: pow2_def)


lemma of_nat_succ_le:
  assumes "a < b"
  shows "rat_of_nat a + 1 \<le> rat_of_nat b"
proof -
  from assms have "Suc a \<le> b" by simp
  then have "rat_of_nat (Suc a) \<le> rat_of_nat b" by (simp only: of_nat_le_iff)
  then show ?thesis by simp
qed

lemma recip_le_swap: "0 < x \<Longrightarrow> 0 < m \<Longrightarrow> 1 / x \<le> m \<Longrightarrow> 1 / m \<le> (x::rat)"
  by (simp add: field_simps)

lemma recip_less_swap: "0 < x \<Longrightarrow> 0 < m \<Longrightarrow> m < 1 / x \<Longrightarrow> x < 1 / (m::rat)"
  by (simp add: field_simps)

lemma ilog2_bounds:
  assumes "0 < x"
  shows "pow2 (ilog2 x) \<le> x" and "x < pow2 (ilog2 x + 1)"
proof -
  show "pow2 (ilog2 x) \<le> x"
  proof (cases "1 \<le> x")
    case True
    define n where "n = nat \<lfloor>x\<rfloor>"
    have n: "0 < n" "of_nat n \<le> x" using True by (auto simp: n_def le_floor_iff)
    have "0 < bit_length n" using n by (subst bit_length.simps) simp
    then have "ilog2 x = int (bit_length n - 1)" using True by (simp add: ilog2_def n_def)
    then have "pow2 (ilog2 x) = of_nat (2 ^ (bit_length n - 1))" by (simp add: pow2_nat)
    also have "\<dots> \<le> of_nat n" using bit_length_bounds [OF n(1)] by (simp only: of_nat_le_iff)
    finally show ?thesis using n by simp
  next
    case False
    define k where "k = nat (\<lceil>1 / x\<rceil> - 1)"
    have y: "1 < 1 / x" using assms False by simp
    then have c: "1 < \<lceil>1 / x\<rceil>" by (simp add: less_ceiling_iff)
    have k: "0 < k" and ik: "int k = \<lceil>1 / x\<rceil> - 1"
      unfolding k_def using c by linarith+
    have "rat_of_nat k = of_int (int k)" by simp
    then have "rat_of_nat k = of_int \<lceil>1 / x\<rceil> - 1" by (simp only: ik of_int_diff of_int_1)
    then have k1: "1 / x \<le> of_nat k + 1"
      using le_of_int_ceiling [of "1 / x"] by simp
    have "ilog2 x = - int (bit_length k)" using False by (simp add: ilog2_def k_def)
    then have p: "pow2 (ilog2 x) = 1 / of_nat (2 ^ bit_length k)" by (simp add: pow2_neg_nat)
    have "of_nat k + 1 \<le> (of_nat (2 ^ bit_length k) :: rat)"
      using bit_length_bounds [OF k] by (intro of_nat_succ_le) simp
    then have le: "1 / x \<le> of_nat (2 ^ bit_length k)" using k1 by linarith
    have m: "0 < rat_of_nat (2 ^ bit_length k)" by simp
    show ?thesis using recip_le_swap [OF assms m le] by (simp only: p)
  qed
  show "x < pow2 (ilog2 x + 1)"
  proof (cases "1 \<le> x")
    case True
    define n where "n = nat \<lfloor>x\<rfloor>"
    have "1 \<le> \<lfloor>x\<rfloor>" using True by (simp add: le_floor_iff)
    then have n0: "0 < n" and "int n = \<lfloor>x\<rfloor>" unfolding n_def by linarith+
    then have "rat_of_nat n = of_int \<lfloor>x\<rfloor>" by (metis of_int_of_nat_eq)
    moreover have "x < of_int \<lfloor>x\<rfloor> + 1" by linarith
    ultimately have n: "0 < n" "x < of_nat n + 1" using n0 by simp_all
    have "0 < bit_length n" using n by (subst bit_length.simps) simp
    then have "ilog2 x + 1 = int (bit_length n)" using True by (simp add: ilog2_def n_def)
    then have "pow2 (ilog2 x + 1) = of_nat (2 ^ bit_length n)" by (simp add: pow2_nat)
    moreover have "of_nat n + 1 \<le> (of_nat (2 ^ bit_length n) :: rat)"
      using bit_length_bounds [OF n(1)] by (intro of_nat_succ_le) simp
    ultimately show ?thesis using n by linarith
  next
    case False
    define k where "k = nat (\<lceil>1 / x\<rceil> - 1)"
    have y: "1 < 1 / x" using assms False by simp
    then have c: "1 < \<lceil>1 / x\<rceil>" by (simp add: less_ceiling_iff)
    have k: "0 < k" and ik: "int k = \<lceil>1 / x\<rceil> - 1"
      unfolding k_def using c by linarith+
    have "rat_of_nat k = of_int (int k)" by simp
    then have "rat_of_nat k = of_int \<lceil>1 / x\<rceil> - 1" by (simp only: ik of_int_diff of_int_1)
    moreover have "of_int \<lceil>1 / x\<rceil> - 1 < 1 / x" by linarith
    ultimately have kx: "of_nat k < 1 / x" by simp
    have bl: "0 < bit_length k" using k by (subst bit_length.simps) simp
    have "ilog2 x + 1 = - int (bit_length k - 1)" using False bl by (simp add: ilog2_def k_def)
    then have p: "pow2 (ilog2 x + 1) = 1 / of_nat (2 ^ (bit_length k - 1))"
      by (simp only: pow2_neg_nat of_nat_power of_nat_numeral)
    have "(of_nat (2 ^ (bit_length k - 1)) :: rat) \<le> of_nat k"
      using bit_length_bounds [OF k] by (simp only: of_nat_le_iff)
    then have less: "of_nat (2 ^ (bit_length k - 1)) < 1 / x" using kx by linarith
    have m: "0 < rat_of_nat (2 ^ (bit_length k - 1))" by simp
    show ?thesis using recip_less_swap [OF assms m less] by (simp only: p)
  qed
qed

lemma ilog2_mono:
  assumes "0 < x" "x \<le> y"
  shows "ilog2 x \<le> ilog2 y"
proof (rule ccontr)
  assume "\<not> ilog2 x \<le> ilog2 y"
  then have "ilog2 y + 1 \<le> ilog2 x" by simp
  then have "pow2 (ilog2 y + 1) \<le> pow2 (ilog2 x)" by (rule pow2_mono)
  moreover have "y < pow2 (ilog2 y + 1)" using assms by (intro ilog2_bounds) simp
  moreover have "pow2 (ilog2 x) \<le> x" using assms by (intro ilog2_bounds)
  ultimately show False using assms by linarith
qed


lemma round_half_even_bounds:
  "of_int (round_half_even x) \<le> x + 1 / 2" "x - 1 / 2 \<le> of_int (round_half_even x)"
  unfolding round_half_even_def Let_def by (simp_all, linarith+)

lemma round_half_even_of_int [simp]: "round_half_even (of_int n) = n"
  by (simp add: round_half_even_def)

lemma round_half_even_mono:
  assumes "x \<le> y"
  shows "round_half_even x \<le> round_half_even y"
proof (cases "\<lfloor>x\<rfloor> = \<lfloor>y\<rfloor>")
  case True
  with assms have "x - of_int \<lfloor>x\<rfloor> \<le> y - of_int \<lfloor>y\<rfloor>" by simp
  with True show ?thesis by (simp add: round_half_even_def Let_def)
next
  case False
  with assms have "\<lfloor>x\<rfloor> + 1 \<le> \<lfloor>y\<rfloor>" using floor_mono [of x y] by linarith
  moreover have "round_half_even x \<le> \<lfloor>x\<rfloor> + 1" by (simp add: round_half_even_def Let_def)
  moreover have "\<lfloor>y\<rfloor> \<le> round_half_even y" by (simp add: round_half_even_def Let_def)
  ultimately show ?thesis by linarith
qed

lemma round_half_even_le: "x \<le> of_int n \<Longrightarrow> round_half_even x \<le> n"
  using round_half_even_mono [of x "of_int n"] by simp

lemma round_half_even_ge: "of_int n \<le> x \<Longrightarrow> n \<le> round_half_even x"
  using round_half_even_mono [of "of_int n" x] by simp

lemma pow2_split_52: "pow2 k = pow2 (k - 52) * 2 ^ 52"
proof -
  have "k = k - 52 + 52" by simp
  then have "pow2 k = pow2 (k - 52 + 52)" by (rule arg_cong)
  also have "\<dots> = pow2 (k - 52) * pow2 52" by (rule pow2_add)
  also have "pow2 52 = 2 ^ 52" by (simp add: pow2_def)
  finally show ?thesis .
qed

lemma pow2_split_53: "pow2 (k + 1) = pow2 (k - 52) * 2 ^ 53"
proof -
  have "k + 1 = k - 52 + 53" by simp
  then have "pow2 (k + 1) = pow2 (k - 52 + 53)" by (rule arg_cong)
  also have "\<dots> = pow2 (k - 52) * pow2 53" by (rule pow2_add)
  also have "pow2 53 = 2 ^ 53" by (simp add: pow2_def)
  finally show ?thesis .
qed

lemma scaled_bounds:
  assumes "0 < x"
  shows "2 ^ 52 \<le> x / pow2 (ilog2 x - 52)" and "x / pow2 (ilog2 x - 52) \<le> 2 ^ 53"
proof -
  note a = pow2_split_52 [of "ilog2 x"]
  note b = pow2_split_53 [of "ilog2 x"]
  have p: "0 < pow2 (ilog2 x - 52)" by simp
  show "2 ^ 52 \<le> x / pow2 (ilog2 x - 52)"
    using ilog2_bounds(1) [OF assms] p unfolding a by (simp add: pos_le_divide_eq mult.commute)
  show "x / pow2 (ilog2 x - 52) \<le> 2 ^ 53"
    using ilog2_bounds(2) [OF assms] p unfolding b by (simp add: pos_divide_le_eq mult.commute)
qed

lemma round_pos_bounds:
  assumes "0 < x"
  shows "pow2 (ilog2 x) \<le> round_pos x" and "round_pos x \<le> pow2 (ilog2 x + 1)"
proof -
  let ?e = "ilog2 x - 52"
  let ?m = "round_half_even (x / pow2 ?e)"
  have a: "pow2 (ilog2 x) = 2 ^ 52 * pow2 ?e"
    using pow2_split_52 [of "ilog2 x"] by (simp only: mult.commute)
  have b: "pow2 (ilog2 x + 1) = 2 ^ 53 * pow2 ?e"
    using pow2_split_53 [of "ilog2 x"] by (simp only: mult.commute)
  have "rat_of_int (2 ^ 52) \<le> x / pow2 ?e" using scaled_bounds(1) [OF assms] by simp
  then have "2 ^ 52 \<le> ?m" by (rule round_half_even_ge)
  then have "rat_of_int (2 ^ 52) \<le> of_int ?m" by (simp only: of_int_le_iff)
  then have "2 ^ 52 * pow2 ?e \<le> of_int ?m * pow2 ?e" by (intro mult_right_mono) simp_all
  then show "pow2 (ilog2 x) \<le> round_pos x" by (simp only: a round_pos_def Let_def)
  have "x / pow2 ?e \<le> rat_of_int (2 ^ 53)" using scaled_bounds(2) [OF assms] by simp
  then have "?m \<le> 2 ^ 53" by (rule round_half_even_le)
  then have "of_int ?m \<le> rat_of_int (2 ^ 53)" by (simp only: of_int_le_iff)
  then have "of_int ?m * pow2 ?e \<le> 2 ^ 53 * pow2 ?e" by (intro mult_right_mono) simp_all
  then show "round_pos x \<le> pow2 (ilog2 x + 1)" by (simp only: b round_pos_def Let_def)
qed

lemma round_pos_pos: "0 < x \<Longrightarrow> 0 < round_pos x"
  using round_pos_bounds(1) [of x] pow2_pos [of "ilog2 x"] by linarith

lemma round_pos_mono:
  assumes "0 < x" "x \<le> y"
  shows "round_pos x \<le> round_pos y"
proof (cases "ilog2 x = ilog2 y")
  case True
  let ?e = "ilog2 y - 52"
  have "x / pow2 ?e \<le> y / pow2 ?e"
    using assms(2) pow2_pos [of ?e] by (intro divide_right_mono) simp_all
  then have "round_half_even (x / pow2 ?e) \<le> round_half_even (y / pow2 ?e)"
    by (rule round_half_even_mono)
  then have "rat_of_int (round_half_even (x / pow2 ?e)) \<le> of_int (round_half_even (y / pow2 ?e))"
    by (simp only: of_int_le_iff)
  then have "of_int (round_half_even (x / pow2 ?e)) * pow2 ?e
               \<le> of_int (round_half_even (y / pow2 ?e)) * pow2 ?e"
    by (intro mult_right_mono) simp_all
  then show ?thesis by (simp only: True round_pos_def Let_def)
next
  case False
  with ilog2_mono [OF assms] have "ilog2 x + 1 \<le> ilog2 y" by simp
  then have "pow2 (ilog2 x + 1) \<le> pow2 (ilog2 y)" by (rule pow2_mono)
  moreover have "round_pos x \<le> pow2 (ilog2 x + 1)" using assms by (intro round_pos_bounds)
  moreover have "pow2 (ilog2 y) \<le> round_pos y" using assms by (intro round_pos_bounds) simp
  ultimately show ?thesis by linarith
qed

lemma fl_0 [simp]: "fl 0 = 0"
  by (simp add: fl_def)

lemma fl_pos: "0 < x \<Longrightarrow> 0 < fl x"
  by (simp add: fl_def round_pos_pos)

lemma fl_neg: "x < 0 \<Longrightarrow> fl x < 0"
  by (simp add: fl_def round_pos_pos)

lemma fl_nonneg: "0 \<le> x \<Longrightarrow> 0 \<le> fl x"
  using fl_pos [of x] by (cases "x = 0") (simp_all add: less_le)

lemma fl_mono:
  assumes "x \<le> y"
  shows "fl x \<le> fl y"
proof -
  consider "y < 0" | "x < 0" "0 \<le> y" | "x = 0" | "0 < x" by linarith
  then show ?thesis
  proof cases
    case 1
    then have "round_pos (- y) \<le> round_pos (- x)" using assms by (intro round_pos_mono) simp_all
    then show ?thesis using 1 assms by (simp add: fl_def)
  next
    case 2
    then show ?thesis using fl_neg [of x] fl_nonneg [of y] by linarith
  next
    case 3
    then show ?thesis using assms fl_nonneg [of y] by simp
  next
    case 4
    then have "round_pos x \<le> round_pos y" using assms by (intro round_pos_mono)
    then show ?thesis using 4 assms by (simp add: fl_def)
  qed
qed

lemma fl_1 [simp]: "fl 1 = 1"
  by code_simp

lemma fl_100 [simp]: "fl 100 = 100"
  by code_simp

section \<open>Grouping missing lines into hunks\<close>

text \<open>
  \<^verbatim>\<open>hunkify\<close> follows the scan rule pair by pair and differs from it at the end of the
  scan only: the hunk that is open when the scan ends is never appended.
\<close>

lemma hunkify_loop_butlast:
  "hunkify_loop R ls hunks cur = butlast (scan_rule_loop R ls hunks cur)"
  by (induction R ls hunks cur rule: hunkify_loop.induct) auto

lemma hunkify_butlast_scan_rule:
  "hunkify h = butlast (scan_rule (lines_of_context h) (line_numbers h))"
  by (simp add: hunkify_def scan_rule_def hunkify_loop_butlast)

lemma scan_rule_loop_concat:
  "concat (scan_rule_loop R ls hunks cur) = concat hunks @ cur @ tl ls"
  by (induction R ls hunks cur rule: scan_rule_loop.induct) auto

lemma scan_rule_concat: "concat (scan_rule R ls) = ls"
  by (cases ls) (simp_all add: scan_rule_def scan_rule_loop_concat)

lemma scan_rule_loop_nonempty:
  "\<lbrakk>hunk \<in> set (scan_rule_loop R ls hunks cur); \<forall>k \<in> set hunks. k \<noteq> []; cur \<noteq> []\<rbrakk>
     \<Longrightarrow> hunk \<noteq> []"
  by (induction R ls hunks cur rule: scan_rule_loop.induct) (auto split: if_splits)

lemma scan_rule_nonempty: "hunk \<in> set (scan_rule R ls) \<Longrightarrow> hunk \<noteq> []"
  using scan_rule_loop_nonempty [of hunk R ls "[]" "[hd ls]"]
  by (simp add: scan_rule_def split: if_splits)

lemma hunkify_nonempty: "hunk \<in> set (hunkify h) \<Longrightarrow> hunk \<noteq> []"
  using scan_rule_nonempty [of hunk "lines_of_context h" "line_numbers h"]
  by (auto simp: hunkify_butlast_scan_rule dest: in_set_butlastD)

text \<open>
  So the lines of the hunks of \<^verbatim>\<open>hunkify\<close> are a proper prefix of the missing lines: the
  lines of the last hunk of the scan rule, the last missing line among them, are in no
  hunk at all.
\<close>

lemma hunkify_loses_last_hunk:
  assumes "line_numbers h \<noteq> []"
  shows "\<exists>open_hunk. open_hunk \<noteq> [] \<and> concat (hunkify h) @ open_hunk = line_numbers h"
proof -
  let ?s = "scan_rule (lines_of_context h) (line_numbers h)"
  have ne: "?s \<noteq> []"
    using assms scan_rule_concat [of "lines_of_context h" "line_numbers h"] by auto
  then have "last ?s \<in> set ?s" by simp
  then have "last ?s \<noteq> []" by (rule scan_rule_nonempty)
  moreover have "concat (butlast ?s) @ last ?s = concat ?s"
    using ne by (metis append_butlast_last_id concat.simps concat_append append_Nil2)
  ultimately show ?thesis
    by (metis hunkify_butlast_scan_rule scan_rule_concat)
qed

text \<open>
  Claim C1. For a sorted, duplicate-free list of missing lines and context radius 2,
  \<^verbatim>\<open>hunkify\<close> should return the hunks of the scan rule, so that every line is in exactly
  one hunk: one hunk for \<open>[10, 15]\<close>, two for \<open>[10, 16]\<close>. The code returns no hunk for
  \<open>[10, 15]\<close> and the single hunk \<open>[10]\<close> for \<open>[10, 16]\<close>, where the scan rule gives
  \<open>[[10, 15]]\<close> and \<open>[[10], [16]]\<close>.
\<close>

theorem hunkify_drops_open_hunk:
  "hunkify (Hunker_init src [10, 15] dr) = []
   \<and> scan_rule 2 [10, 15] = [[10, 15]]
   \<and> hunkify (Hunker_init src [10, 16] dr) = [[10]]
   \<and> scan_rule 2 [10, 16] = [[10], [16]]"
  by (simp add: hunkify_def Hunker_init_def scan_rule_def)

section \<open>DiffViolations\<close>

lemma map_of_diff_violations:
  "map_of (diff_violations g) p =
     (if p \<in> set (src_paths_changed (generator_diff g))
      then Some (DiffViolations_init
                   (reporter_violations (generator_violations g) p)
                   (reporter_measured_lines (generator_violations g) p)
                   (lines_changed (generator_diff g) p))
      else None)"
  by (simp add: diff_violations_def map_of_map_restrict restrict_map_def)

lemma finite_measured_lines [simp]: "finite (measured_lines (DiffViolations_init vs ml dl))"
  by (simp add: DiffViolations_init_def split: option.split)

lemma finite_lines [simp]: "finite (lines (DiffViolations_init vs ml dl))"
  by (simp add: DiffViolations_init_def)

text \<open>
  Claim C3, as stated: for any violations, any measured lines and any changed lines,
  the violation lines are a subset of the measured lines. It fails for a violation on a
  changed line that the reporter does not list as measured: both sets are intersected with
  the changed lines, and neither with the other.
\<close>

theorem violation_lines_not_measured:
  "\<not> lines (DiffViolations_init [\<lparr>line = 3\<rparr>] (Some [1]) [1, 3])
       \<subseteq> measured_lines (DiffViolations_init [\<lparr>line = 3\<rparr>] (Some [1]) [1, 3])"
  by (simp add: DiffViolations_init_def)

text \<open>
  Claim C3, amended: the measured lines and the violation lines are both subsets of the
  changed lines, for any input; the violation lines are a subset of the measured lines
  when the reporter has no set of measured lines (\<^verbatim>\<open>None\<close>), or when each of its
  violations on a changed line is on a line it reports as measured.
\<close>

theorem DiffViolations_containment:
  "measured_lines (DiffViolations_init vs ml dl) \<subseteq> set dl
   \<and> lines (DiffViolations_init vs ml dl) \<subseteq> set dl
   \<and> ((ml = None \<or> (\<exists>m. ml = Some m \<and> line ` set vs \<inter> set dl \<subseteq> set m))
        \<longrightarrow> lines (DiffViolations_init vs ml dl) \<subseteq> measured_lines (DiffViolations_init vs ml dl))"
  by (auto simp: DiffViolations_init_def split: option.splits)

theorem DiffViolations_containment_witness:
  "measured_lines (DiffViolations_init [\<lparr>line = 3\<rparr>, \<lparr>line = 7\<rparr>] (Some [1, 3, 9]) [1, 3]) \<subseteq> set [1, 3]
   \<and> lines (DiffViolations_init [\<lparr>line = 3\<rparr>, \<lparr>line = 7\<rparr>] (Some [1, 3, 9]) [1, 3]) = {3}
   \<and> line ` set [\<lparr>line = 3\<rparr>, \<lparr>line = 7\<rparr>] \<inter> set [1, 3] \<subseteq> set [1, 3, 9]
   \<and> lines (DiffViolations_init [\<lparr>line = 3\<rparr>, \<lparr>line = 7\<rparr>] (Some [1, 3, 9]) [1, 3])
       \<subseteq> measured_lines (DiffViolations_init [\<lparr>line = 3\<rparr>, \<lparr>line = 7\<rparr>] (Some [1, 3, 9]) [1, 3])"
  using DiffViolations_containment [of "[\<lparr>line = 3\<rparr>, \<lparr>line = 7\<rparr>]" "Some [1, 3, 9]" "[1, 3]"]
  by (simp add: DiffViolations_init_def)

section \<open>The report generator\<close>

lemma entry_finite:
  assumes "map_of (diff_violations g) p = Some dv"
  shows "finite (measured_lines dv)" and "finite (lines dv)"
  using assms by (auto simp: map_of_diff_violations split: if_splits)

lemma example_entry:
  "map_of (diff_violations (example_generator vs ml dl)) ''a.py'' = Some (DiffViolations_init vs ml dl)"
  by (simp add: map_of_diff_violations example_generator_def)

text \<open>
  Claim C8. For every file of the diff, the measured lines of its entry are all the changed
  lines of the file when the violations reporter gives no set of measured lines (\<^verbatim>\<open>None\<close>),
  and the reported measured lines intersected with the changed lines otherwise.
\<close>

theorem measured_lines_default:
  "map_of (diff_violations g) p = Some dv \<Longrightarrow>
     measured_lines dv =
       (case reporter_measured_lines (generator_violations g) p of
          None \<Rightarrow> set (lines_changed (generator_diff g) p)
        | Some m \<Rightarrow> set m \<inter> set (lines_changed (generator_diff g) p))"
  by (auto simp: map_of_diff_violations DiffViolations_init_def split: if_splits)

theorem measured_lines_default_witness:
  "measured_lines (DiffViolations_init [] None [2, 3, 4]) = {2, 3, 4}
   \<and> measured_lines (DiffViolations_init [] (Some [1, 2, 3]) [2, 3, 4]) = {2, 3}"
proof -
  have "measured_lines (DiffViolations_init [] None [2, 3, 4]) = {2, 3, 4}"
    using measured_lines_default [OF example_entry [of "[]" None "[2, 3, 4]"]]
    by (simp add: example_generator_def)
  moreover have "measured_lines (DiffViolations_init [] (Some [1, 2, 3]) [2, 3, 4]) = {2, 3}"
    using measured_lines_default [OF example_entry [of "[]" "Some [1, 2, 3]" "[2, 3, 4]"]]
    by (auto simp: example_generator_def)
  ultimately show ?thesis by (intro conjI)
qed

lemma src_paths_changed_measured:
  "src_paths g =
     {p \<in> set (src_paths_changed (generator_diff g)).
        measured_lines (DiffViolations_init
                          (reporter_violations (generator_violations g) p)
                          (reporter_measured_lines (generator_violations g) p)
                          (lines_changed (generator_diff g) p)) \<noteq> {}}"
  by (auto simp: src_paths_def diff_violations_def card_gt_0_iff image_iff)

text \<open>
  Claim C7. \<^verbatim>\<open>src_paths()\<close> is exactly the set of paths whose entry has a non-empty set of
  measured lines; a path of the diff whose measured lines (restricted to the changed lines)
  are empty is not in it.
\<close>

theorem src_paths_measured:
  "src_paths g = {p. \<exists>dv. map_of (diff_violations g) p = Some dv \<and> measured_lines dv \<noteq> {}}
   \<and> (\<forall>dv. map_of (diff_violations g) p = Some dv \<and> measured_lines dv = {} \<longrightarrow> p \<notin> src_paths g)"
proof -
  have "src_paths g = {p. \<exists>dv. map_of (diff_violations g) p = Some dv \<and> measured_lines dv \<noteq> {}}"
    unfolding src_paths_changed_measured by (auto simp: map_of_diff_violations)
  then show ?thesis by auto
qed

theorem src_paths_measured_witness:
  "map_of (diff_violations (example_generator [] (Some [1, 2, 3]) [2, 3, 4])) ''a.py''
     = Some (DiffViolations_init [] (Some [1, 2, 3]) [2, 3, 4])
   \<and> measured_lines (DiffViolations_init [] (Some [1, 2, 3]) [2, 3, 4]) \<noteq> {}
   \<and> ''a.py'' \<in> src_paths (example_generator [] (Some [1, 2, 3]) [2, 3, 4])
   \<and> map_of (diff_violations (example_generator [] (Some [1]) [2, 3, 4])) ''a.py''
       = Some (DiffViolations_init [] (Some [1]) [2, 3, 4])
   \<and> measured_lines (DiffViolations_init [] (Some [1]) [2, 3, 4]) = {}
   \<and> ''a.py'' \<notin> src_paths (example_generator [] (Some [1]) [2, 3, 4])"
proof -
  let ?g = "example_generator [] (Some [1, 2, 3]) [2, 3, 4]"
  let ?g' = "example_generator [] (Some [1]) [2, 3, 4]"
  have e: "map_of (diff_violations ?g) ''a.py'' = Some (DiffViolations_init [] (Some [1, 2, 3]) [2, 3, 4])"
    by (rule example_entry)
  have m: "measured_lines (DiffViolations_init [] (Some [1, 2, 3]) [2, 3, 4]) \<noteq> {}"
    by (simp add: DiffViolations_init_def)
  have e': "map_of (diff_violations ?g') ''a.py'' = Some (DiffViolations_init [] (Some [1]) [2, 3, 4])"
    by (rule example_entry)
  have m': "measured_lines (DiffViolations_init [] (Some [1]) [2, 3, 4]) = {}"
    by (simp add: DiffViolations_init_def)
  have "''a.py'' \<in> src_paths ?g"
    using src_paths_measured [of ?g "''a.py''"] e m by blast
  moreover have "''a.py'' \<notin> src_paths ?g'"
    using src_paths_measured [of ?g' "''a.py''"] e' m' by blast
  ultimately show ?thesis using e m e' m' by (intro conjI)
qed

section \<open>The percentage of one file\<close>

lemma float_of_int_eq_0 [simp]: "float_of_int n = 0 \<longleftrightarrow> n = 0"
  using fl_pos [of "of_int n"] fl_neg [of "of_int n"]
  by (cases "n = 0"; cases "0 < n") (auto simp: float_of_int_def)

lemma float_of_int_nonneg: "0 \<le> n \<Longrightarrow> 0 \<le> float_of_int n"
  by (simp add: float_of_int_def fl_nonneg)

lemma float_of_int_pos: "0 < n \<Longrightarrow> 0 < float_of_int n"
  by (simp add: float_of_int_def fl_pos)

lemma float_of_int_mono: "m \<le> n \<Longrightarrow> float_of_int m \<le> float_of_int n"
  by (simp add: float_of_int_def fl_mono)

lemma percent_covered_entry:
  assumes "map_of (diff_violations g) p = Some dv"
  shows "percent_covered g p =
           (if measured_lines dv = {} then Inl ZeroDivisionError
            else Inr (Some (fsub 100 (fmul (fl (float_of_int (int (card (lines dv)))
                                               / float_of_int (int (card (measured_lines dv))))) 100))))"
  using assms entry_finite [OF assms]
  by (simp add: percent_covered_def fdiv_def Let_def)

lemma ratio_bounds:
  assumes "0 \<le> a" "0 < b"
  shows "0 \<le> fl (a / b)" and "a \<le> b \<Longrightarrow> fl (a / b) \<le> 1"
proof -
  show "0 \<le> fl (a / b)" using assms by (intro fl_nonneg) simp
  assume "a \<le> b"
  then have "a / b \<le> 1" using assms by simp
  then have "fl (a / b) \<le> fl 1" by (rule fl_mono)
  then show "fl (a / b) \<le> 1" by simp
qed

lemma percent_bounds:
  assumes "0 \<le> q"
  shows "0 \<le> fmul q 100" and "q \<le> 1 \<Longrightarrow> fmul q 100 \<le> 100"
proof -
  show "0 \<le> fmul q 100" using assms by (simp add: fmul_def fl_nonneg)
  assume "q \<le> 1"
  then have "q * 100 \<le> 100" by simp
  then have "fl (q * 100) \<le> fl 100" by (rule fl_mono)
  then show "fmul q 100 \<le> 100" by (simp add: fmul_def)
qed

lemma complement_bounds:
  assumes "0 \<le> p"
  shows "fsub 100 p \<le> 100" and "p \<le> 100 \<Longrightarrow> 0 \<le> fsub 100 p"
proof -
  have "100 - p \<le> 100" using assms by simp
  then have "fl (100 - p) \<le> fl 100" by (rule fl_mono)
  then show "fsub 100 p \<le> 100" by (simp add: fsub_def)
  assume "p \<le> 100"
  then show "0 \<le> fsub 100 p" by (simp add: fsub_def fl_nonneg)
qed

text \<open>
  Claim C9. A path of the diff always has an entry. When the measured lines of the entry
  are empty, \<^verbatim>\<open>percent_covered\<close> divides by zero and raises \<^verbatim>\<open>ZeroDivisionError\<close>; it
  returns \<^verbatim>\<open>None\<close> if and only if the path has no entry, that is, is not a path of the
  diff.
\<close>

theorem percent_covered_zero_division:
  "(percent_covered g p = Inr None \<longleftrightarrow> p \<notin> set (src_paths_changed (generator_diff g)))
   \<and> (map_of (diff_violations g) p = None \<longleftrightarrow> p \<notin> set (src_paths_changed (generator_diff g)))
   \<and> (\<forall>dv. map_of (diff_violations g) p = Some dv \<and> measured_lines dv = {}
         \<longrightarrow> percent_covered g p = Inl ZeroDivisionError)"
proof (intro conjI allI impI)
  show a: "map_of (diff_violations g) p = None \<longleftrightarrow> p \<notin> set (src_paths_changed (generator_diff g))"
    by (simp add: map_of_diff_violations)
  have b: "percent_covered g p = Inr None \<longleftrightarrow> map_of (diff_violations g) p = None"
  proof (cases "map_of (diff_violations g) p")
    case None
    then show ?thesis by (simp add: percent_covered_def)
  next
    case (Some dv)
    have "percent_covered g p \<noteq> Inr None"
      unfolding percent_covered_entry [OF Some] by (simp split: if_splits)
    with Some show ?thesis by simp
  qed
  show "percent_covered g p = Inr None \<longleftrightarrow> p \<notin> set (src_paths_changed (generator_diff g))"
    using b a by (rule trans)
next
  fix dv
  assume "map_of (diff_violations g) p = Some dv \<and> measured_lines dv = {}"
  then have e: "map_of (diff_violations g) p = Some dv" and m: "measured_lines dv = {}" by (rule conjunct1, rule conjunct2)
  show "percent_covered g p = Inl ZeroDivisionError"
    unfolding percent_covered_entry [OF e] by (simp only: m simp_thms if_True)
qed

theorem percent_covered_zero_division_witness:
  "''a.py'' \<in> set (src_paths_changed (generator_diff (example_generator [] (Some [7]) [1, 2])))
   \<and> map_of (diff_violations (example_generator [] (Some [7]) [1, 2])) ''a.py''
       = Some (DiffViolations_init [] (Some [7]) [1, 2])
   \<and> measured_lines (DiffViolations_init [] (Some [7]) [1, 2]) = {}
   \<and> percent_covered (example_generator [] (Some [7]) [1, 2]) ''a.py'' = Inl ZeroDivisionError
   \<and> ''b.py'' \<notin> set (src_paths_changed (generator_diff (example_generator [] (Some [7]) [1, 2])))
   \<and> percent_covered (example_generator [] (Some [7]) [1, 2]) ''b.py'' = Inr None"
proof -
  let ?g = "example_generator [] (Some [7]) [1, 2]"
  have e: "map_of (diff_violations ?g) ''a.py'' = Some (DiffViolations_init [] (Some [7]) [1, 2])"
    by (rule example_entry)
  have m: "measured_lines (DiffViolations_init [] (Some [7]) [1, 2]) = {}"
    by (simp add: DiffViolations_init_def)
  have c: "''a.py'' \<in> set (src_paths_changed (generator_diff ?g))"
    "''b.py'' \<notin> set (src_paths_changed (generator_diff ?g))"
    by (simp_all add: example_generator_def)
  have "percent_covered ?g ''a.py'' = Inl ZeroDivisionError"
    using percent_covered_zero_division [of ?g "''a.py''"] e m by blast
  moreover have "percent_covered ?g ''b.py'' = Inr None"
    using percent_covered_zero_division [of ?g "''b.py''"] c by blast
  ultimately show ?thesis using e m c by (intro conjI)
qed

text \<open>
  Claim C4, as stated: for every path with an entry, \<^verbatim>\<open>percent_covered\<close> returns a float
  in \<open>[0, 100]\<close>. It fails for an entry without measured lines, where the division raises,
  and for an entry with more violation lines than measured lines, where the result is
  negative.
\<close>

theorem percent_covered_not_in_range:
  "map_of (diff_violations (example_generator [] (Some []) [1, 2])) ''a.py'' \<noteq> None
   \<and> percent_covered (example_generator [] (Some []) [1, 2]) ''a.py'' = Inl ZeroDivisionError
   \<and> map_of (diff_violations (example_generator [\<lparr>line = 3\<rparr>, \<lparr>line = 4\<rparr>] (Some [1]) [1, 3, 4])) ''a.py'' \<noteq> None
   \<and> percent_covered (example_generator [\<lparr>line = 3\<rparr>, \<lparr>line = 4\<rparr>] (Some [1]) [1, 3, 4]) ''a.py''
       = Inr (Some (- 100))"
proof -
  have "fsub 100 (fmul (fl (float_of_int 2 / float_of_int 1)) 100) = - 100" by code_simp
  then show ?thesis
    by (simp add: example_entry percent_covered_entry DiffViolations_init_def)
qed

text \<open>
  Claim C4, amended. For a path without an entry \<^verbatim>\<open>percent_covered\<close> returns \<^verbatim>\<open>None\<close>.
  For a path whose entry has a non-empty set of measured lines it returns the float
  \<^verbatim>\<open>100 - float(len(lines)) / len(measured_lines) * 100\<close>, every operation rounded to a
  double; the result is at most 100, and at least 0 when there are no more violation
  lines than measured lines. For the measured lines \<open>{5, 6, 7}\<close> and the violation lines
  \<open>{6}\<close> it is the double \<open>4691249611844267 / 2\<^sup>4\<^sup>6\<close>, printed 66.66666666666667.
\<close>

theorem percent_covered_value:
  "(map_of (diff_violations g) p = None \<longrightarrow> percent_covered g p = Inr None)
   \<and> (\<forall>dv. map_of (diff_violations g) p = Some dv \<and> measured_lines dv \<noteq> {} \<longrightarrow>
         (\<exists>q x. fdiv (float_of_int (int (card (lines dv))))
                      (float_of_int (int (card (measured_lines dv)))) = Inr q
                \<and> x = fsub 100 (fmul q 100)
                \<and> percent_covered g p = Inr (Some x)
                \<and> x \<le> 100
                \<and> (card (lines dv) \<le> card (measured_lines dv) \<longrightarrow> 0 \<le> x)
                \<and> (lines dv = {6} \<and> measured_lines dv = {5, 6, 7}
                     \<longrightarrow> x = 4691249611844267 / 70368744177664)))"
proof (intro conjI allI impI)
  assume "map_of (diff_violations g) p = None"
  then show "percent_covered g p = Inr None" by (simp add: percent_covered_def)
next
  fix dv
  assume a: "map_of (diff_violations g) p = Some dv \<and> measured_lines dv \<noteq> {}"
  let ?k = "float_of_int (int (card (lines dv)))"
  let ?m = "float_of_int (int (card (measured_lines dv)))"
  let ?q = "fl (?k / ?m)"
  let ?x = "fsub 100 (fmul ?q 100)"
  from a have fin: "finite (measured_lines dv)" by (auto dest: entry_finite)
  with a have cm: "0 < card (measured_lines dv)" by (simp add: card_gt_0_iff)
  then have m: "0 < ?m" by (intro float_of_int_pos) simp
  have k: "0 \<le> ?k" by (intro float_of_int_nonneg) simp
  have q: "fdiv ?k ?m = Inr ?q" using cm by (simp add: fdiv_def)
  have pc: "percent_covered g p = Inr (Some ?x)"
    using a by (simp add: percent_covered_entry)
  have q0: "0 \<le> ?q" using k m by (rule ratio_bounds)
  have p0: "0 \<le> fmul ?q 100" using q0 by (rule percent_bounds)
  have le: "?x \<le> 100" using p0 by (rule complement_bounds)
  have ge: "0 \<le> ?x" if "card (lines dv) \<le> card (measured_lines dv)"
  proof -
    from that have "?k \<le> ?m" by (intro float_of_int_mono) simp
    then have "?q \<le> 1" using k m by (intro ratio_bounds)
    then have "fmul ?q 100 \<le> 100" using q0 by (intro percent_bounds)
    then show ?thesis using p0 by (intro complement_bounds)
  qed
  have ex: "?x = 4691249611844267 / 70368744177664"
    if "lines dv = {6} \<and> measured_lines dv = {5, 6, 7}"
  proof -
    have "fsub 100 (fmul (fl (float_of_int 1 / float_of_int 3)) 100)
            = 4691249611844267 / 70368744177664"
      by code_simp
    moreover from that have "card (lines dv) = 1" "card (measured_lines dv) = 3" by simp_all
    ultimately show ?thesis by simp
  qed
  show "\<exists>q x. fdiv ?k ?m = Inr q \<and> x = fsub 100 (fmul q 100) \<and> percent_covered g p = Inr (Some x)
          \<and> x \<le> 100 \<and> (card (lines dv) \<le> card (measured_lines dv) \<longrightarrow> 0 \<le> x)
          \<and> (lines dv = {6} \<and> measured_lines dv = {5, 6, 7}
               \<longrightarrow> x = 4691249611844267 / 70368744177664)"
  proof (intro exI conjI impI)
    show "fdiv ?k ?m = Inr ?q" by (rule q)
    show "?x = fsub 100 (fmul ?q 100)" by (rule refl)
    show "percent_covered g p = Inr (Some ?x)" by (rule pc)
    show "?x \<le> 100" by (rule le)
    show "0 \<le> ?x" if "card (lines dv) \<le> card (measured_lines dv)" using that by (rule ge)
    show "?x = 4691249611844267 / 70368744177664"
      if "lines dv = {6} \<and> measured_lines dv = {5, 6, 7}" using that by (rule ex)
  qed
qed

theorem percent_covered_value_witness:
  "map_of (diff_violations (example_generator [\<lparr>line = 6\<rparr>] (Some [5, 6, 7]) [5, 6, 7])) ''a.py''
     = Some (DiffViolations_init [\<lparr>line = 6\<rparr>] (Some [5, 6, 7]) [5, 6, 7])
   \<and> lines (DiffViolations_init [\<lparr>line = 6\<rparr>] (Some [5, 6, 7]) [5, 6, 7]) = {6}
   \<and> measured_lines (DiffViolations_init [\<lparr>line = 6\<rparr>] (Some [5, 6, 7]) [5, 6, 7]) = {5, 6, 7}
   \<and> percent_covered (example_generator [\<lparr>line = 6\<rparr>] (Some [5, 6, 7]) [5, 6, 7]) ''a.py''
       = Inr (Some (4691249611844267 / 70368744177664))
   \<and> map_of (diff_violations (example_generator [\<lparr>line = 6\<rparr>] (Some [5, 6, 7]) [5, 6, 7])) ''b.py'' = None
   \<and> percent_covered (example_generator [\<lparr>line = 6\<rparr>] (Some [5, 6, 7]) [5, 6, 7]) ''b.py'' = Inr None"
proof -
  let ?g = "example_generator [\<lparr>line = 6\<rparr>] (Some [5, 6, 7]) [5, 6, 7]"
  let ?dv = "DiffViolations_init [\<lparr>line = 6\<rparr>] (Some [5, 6, 7]) [5, 6, 7]"
  have e: "map_of (diff_violations ?g) ''a.py'' = Some ?dv" by (rule example_entry)
  have l: "lines ?dv = {6}" by (simp add: DiffViolations_init_def)
  have m: "measured_lines ?dv = {5, 6, 7}" by (auto simp: DiffViolations_init_def)
  have n: "map_of (diff_violations ?g) ''b.py'' = None"
    by (simp add: map_of_diff_violations example_generator_def)
  have ne: "measured_lines ?dv \<noteq> {}" by (simp add: m)
  from percent_covered_value [of ?g "''a.py''"] e ne obtain x where
    "percent_covered ?g ''a.py'' = Inr (Some x)"
    "lines ?dv = {6} \<and> measured_lines ?dv = {5, 6, 7} \<longrightarrow> x = 4691249611844267 / 70368744177664"
    by blast
  with l m have "percent_covered ?g ''a.py'' = Inr (Some (4691249611844267 / 70368744177664))"
    by blast
  moreover have "percent_covered ?g ''b.py'' = Inr None"
    using percent_covered_value [of ?g "''b.py''"] n by simp
  ultimately show ?thesis using e l m n by (intro conjI)
qed

section \<open>The percentage of the whole diff\<close>

text \<open>
  The relative error of one rounding is at most \<open>2\<^sup>-\<^sup>5\<^sup>3\<close>, and the integers below
  \<open>2\<^sup>5\<^sup>3\<close> are doubles. With these, the integer \<^verbatim>\<open>total_percent_covered\<close> returns is
  compared with the floor of the exact percentage.
\<close>

lemma total_num_lines_nonneg: "0 \<le> total_num_lines g"
  unfolding total_num_lines_def by (rule sum_list_nonneg) auto

lemma total_num_missing_nonneg: "0 \<le> total_num_missing g"
  unfolding total_num_missing_def by (rule sum_list_nonneg) auto

lemma total_num_lines_empty_diff:
  "src_paths_changed (generator_diff g) = [] \<Longrightarrow> total_num_lines g = 0"
  by (simp add: total_num_lines_def diff_violations_def)

lemma total_percent_covered_pos:
  assumes "0 < total_num_lines g"
  shows "total_percent_covered g =
           Inr (int_of_float (fmul (fl (float_of_int (total_num_lines g - total_num_missing g)
                                        / float_of_int (total_num_lines g))) 100))"
  using assms by (simp add: total_percent_covered_def Let_def fdiv_def)

lemma int_of_float_range:
  assumes "0 \<le> x" "x \<le> 100"
  shows "0 \<le> int_of_float x" "int_of_float x \<le> 100"
proof -
  show "0 \<le> int_of_float x" using assms by (simp add: int_of_float_def)
  have "\<lfloor>x\<rfloor> \<le> \<lfloor>100::rat\<rfloor>" using assms(2) by (rule floor_mono)
  then show "int_of_float x \<le> 100" using assms by (simp add: int_of_float_def)
qed

lemma fl_rel_error:
  assumes "0 < x"
  shows "x * (1 - 1 / 9007199254740992) \<le> fl x" and "fl x \<le> x * (1 + 1 / 9007199254740992)"
proof -
  define P where "P = pow2 (ilog2 x - 52)"
  define s where "s = x / P"
  define m where "m = rat_of_int (round_half_even s)"
  have P: "0 < P" by (simp add: P_def)
  have x: "x = s * P" using P by (simp add: s_def)
  have f: "fl x = m * P" using assms by (simp add: fl_def round_pos_def m_def s_def P_def Let_def)
  have b: "m \<le> s + 1 / 2" "s - 1 / 2 \<le> m"
    unfolding m_def by (rule round_half_even_bounds)+
  have "2 ^ 52 \<le> s" unfolding s_def P_def using assms by (rule scaled_bounds)
  then have s: "4503599627370496 \<le> s" by simp
  have "s * (1 - 1 / 9007199254740992) \<le> m" using b s by (simp add: algebra_simps)
  then have lo: "s * (1 - 1 / 9007199254740992) * P \<le> m * P"
    using P by (intro mult_right_mono) simp_all
  have "x * (1 - 1 / 9007199254740992) = s * (1 - 1 / 9007199254740992) * P"
    by (simp add: x)
  also note lo
  also have "m * P = fl x" by (rule f [symmetric])
  finally show "x * (1 - 1 / 9007199254740992) \<le> fl x" .
  have "m \<le> s * (1 + 1 / 9007199254740992)" using b s by (simp add: algebra_simps)
  then have hi: "m * P \<le> s * (1 + 1 / 9007199254740992) * P"
    using P by (intro mult_right_mono) simp_all
  note f
  also note hi
  also have "s * (1 + 1 / 9007199254740992) * P = x * (1 + 1 / 9007199254740992)"
    by (simp add: x)
  finally show "fl x \<le> x * (1 + 1 / 9007199254740992)" .
qed

lemma pow2_0 [simp]: "pow2 0 = 1"
  by (simp add: pow2_def)

lemma ilog2_less:
  assumes "0 < x" "x < pow2 k"
  shows "ilog2 x < k"
proof (rule ccontr)
  assume "\<not> ilog2 x < k"
  then have "pow2 k \<le> pow2 (ilog2 x)" by (intro pow2_mono) simp
  with ilog2_bounds(1) [OF assms(1)] assms(2) show False by linarith
qed

lemma fl_of_int_exact:
  assumes "0 \<le> n" "n < 2 ^ 53"
  shows "fl (of_int n) = of_int n"
proof (cases "n = 0")
  case True
  then show ?thesis by simp
next
  case False
  with assms have pos: "0 < rat_of_int n" by simp
  define e where "e = ilog2 (of_int n) - 52"
  have "rat_of_int n < of_int (2 ^ 53)" using assms(2) by (simp only: of_int_less_iff)
  also have "\<dots> = pow2 53" by (simp add: pow2_def)
  finally have "ilog2 (of_int n) < 53" using pos by (intro ilog2_less)
  then have e: "e \<le> 0" by (simp add: e_def)
  then have p: "pow2 e = 1 / 2 ^ nat (- e)" using pow2_neg_nat [of "nat (- e)"] by simp
  then have "rat_of_int n / pow2 e = of_int (n * 2 ^ nat (- e))" by simp
  then have "round_half_even (of_int n / pow2 e) = n * 2 ^ nat (- e)"
    by (simp only: round_half_even_of_int)
  then have "round_pos (of_int n) = of_int (n * 2 ^ nat (- e)) * pow2 e"
    by (simp add: round_pos_def e_def Let_def)
  also have "\<dots> = of_int n" by (simp add: p)
  finally show ?thesis using pos by (simp add: fl_def)
qed

lemma quotient_below_next_integer:
  fixes a t :: int
  assumes "0 < t"
  shows "rat_of_int a / of_int t \<le> of_int \<lfloor>rat_of_int a / of_int t\<rfloor> + 1 - 1 / of_int t"
proof -
  have F: "\<lfloor>rat_of_int a / of_int t\<rfloor> = a div t" by (rule floor_divide_of_int_eq)
  have "a mod t \<le> t - 1" using assms pos_mod_bound [of t a] by simp
  moreover have "a = t * (a div t) + a mod t" by simp
  ultimately have "a \<le> t * (a div t) + t - 1" by linarith
  then have "rat_of_int a \<le> of_int (t * (a div t) + t - 1)" by (simp only: of_int_le_iff)
  then have "rat_of_int a \<le> of_int t * (of_int (a div t) + 1 - 1 / of_int t)"
    using assms by (simp add: algebra_simps)
  then have "rat_of_int a / of_int t \<le> of_int (a div t) + 1 - 1 / of_int t"
    using assms by (simp add: pos_divide_le_eq mult.commute)
  then show ?thesis by (simp only: F)
qed

lemma percent_floor_bounds:
  fixes c t :: int
  assumes "0 \<le> c" "c \<le> t" "0 < t" "t < 2 ^ 44"
  defines "p \<equiv> fmul (fl (float_of_int c / float_of_int t)) 100"
  shows "\<lfloor>100 * rat_of_int c / of_int t\<rfloor> - 1 \<le> int_of_float p"
    and "int_of_float p \<le> \<lfloor>100 * rat_of_int c / of_int t\<rfloor>"
proof -
  define F where "F = \<lfloor>100 * rat_of_int c / of_int t\<rfloor>"
  define r where "r = rat_of_int c / of_int t"
  define w where "w = 1 / rat_of_int t"
  have "t < 2 ^ 53" using assms(4) by simp
  moreover from this assms have "c < 2 ^ 53" by linarith
  ultimately have ex: "float_of_int c = of_int c" "float_of_int t = of_int t"
    using assms by (simp_all add: float_of_int_def fl_of_int_exact)
  have p: "p = fl (fl r * 100)" by (simp add: p_def ex r_def fmul_def)
  have r0: "0 \<le> r" and r1: "r \<le> 1" using assms by (simp_all add: r_def)
  have "rat_of_int t < of_int (2 ^ 44)" using assms(4) by (simp only: of_int_less_iff)
  then have "rat_of_int t < 17592186044416" by simp
  moreover have tpos: "0 < rat_of_int t" using assms by simp
  ultimately have w: "1 / 17592186044416 < w"
    unfolding w_def by (simp add: field_simps)
  have Fle: "of_int F \<le> 100 * r" unfolding F_def r_def by simp
  have "rat_of_int (100 * c) / of_int t
          \<le> of_int \<lfloor>rat_of_int (100 * c) / of_int t\<rfloor> + 1 - 1 / of_int t"
    using assms(3) by (rule quotient_below_next_integer)
  then have Fge: "100 * r \<le> of_int F + 1 - w" by (simp add: F_def r_def w_def)
  have p0: "0 \<le> p" unfolding p using r0 by (intro fl_nonneg mult_nonneg_nonneg) simp_all
  have b: "of_int (F - 1) \<le> p \<and> p < of_int (F + 1)"
  proof (cases "r = 0")
    case True
    then have "p = 0" by (simp add: p)
    moreover from True tpos have "c = 0" by (simp add: r_def)
    then have "F = 0" by (simp add: F_def)
    ultimately show ?thesis by simp
  next
    case False
    with r0 have rpos: "0 < r" by simp
    then have q: "r * (1 - 1 / 9007199254740992) \<le> fl r" "fl r \<le> r * (1 + 1 / 9007199254740992)"
      by (rule fl_rel_error)+
    have "0 < fl r" using rpos by (rule fl_pos)
    then have "0 < fl r * 100" by simp
    then have y: "fl r * 100 * (1 - 1 / 9007199254740992) \<le> p"
      "p \<le> fl r * 100 * (1 + 1 / 9007199254740992)"
      unfolding p by (rule fl_rel_error)+
    have lo: "100 * r - 1 / 2 \<le> p" using q(1) y(1) r1 rpos by (simp add: algebra_simps)
    have hi: "p \<le> 100 * r + 1 / 35184372088832" using q(2) y(2) r1 rpos by (simp add: algebra_simps)
    have "of_int (F - 1) \<le> p" using lo Fle by simp
    moreover have "p < of_int (F + 1)" using hi Fge w by simp
    ultimately show ?thesis by simp
  qed
  then have "of_int (F - 1) \<le> p" and "p < of_int (F + 1)" by (rule conjunct1, rule conjunct2)
  then have "F - 1 \<le> \<lfloor>p\<rfloor>" "\<lfloor>p\<rfloor> < F + 1"
    by (simp_all only: le_floor_iff floor_less_iff)
  then show "\<lfloor>100 * rat_of_int c / of_int t\<rfloor> - 1 \<le> int_of_float p"
    and "int_of_float p \<le> \<lfloor>100 * rat_of_int c / of_int t\<rfloor>"
    using p0 by (simp_all add: int_of_float_def F_def)
qed

lemma example_totals:
  "total_num_lines (example_generator vs ml dl) = int (card (measured_lines (DiffViolations_init vs ml dl)))"
  "total_num_missing (example_generator vs ml dl) = int (card (lines (DiffViolations_init vs ml dl)))"
  by (simp_all add: total_num_lines_def total_num_missing_def diff_violations_def example_generator_def)


text \<open>
  Rounding also separates the result from the floor of the claim: with 100 measured lines,
  71 of them violations, \<^verbatim>\<open>float(29) / 100 * 100\<close> is the double just below 29 and the
  result is 28.
\<close>

lemma total_percent_covered_rounding:
  "total_percent_covered (example_generator (map (\<lambda>n. \<lparr>line = n\<rparr>) [1..71]) None [1..100]) = Inr 28
   \<and> \<lfloor>100 - (71::rat) / 100 * 100\<rfloor> = 29"
proof -
  let ?g = "example_generator (map (\<lambda>n. \<lparr>line = n\<rparr>) [1..71]) None [1..100]"
  have "set (map line (map (\<lambda>n. \<lparr>line = n\<rparr>) [1..71])) = {1..71}" by (simp add: comp_def)
  then have m: "total_num_missing ?g = 71"
    by (simp add: example_totals DiffViolations_init_def Int_absorb2 del: set_map)
  have t: "total_num_lines ?g = 100" by (simp add: example_totals DiffViolations_init_def)
  have "int_of_float (fmul (fl (float_of_int 29 / float_of_int 100)) 100) = 28" by code_simp
  then have "total_percent_covered ?g = Inr 28"
    using total_percent_covered_pos [of ?g] by (simp add: t m)
  then show ?thesis by simp
qed



section \<open>Hunks with context\<close>

lemma zip_upto_fst:
  assumes "i < length (zip [a..b] ys)"
  shows "fst (zip [a..b] ys ! i) = a + int i"
proof -
  from assms have "i < length [a..b]" by simp
  then have "a + int i \<le> b" by simp
  then have "[a..b] ! i = a + int i" by (rule nth_upto)
  with assms show ?thesis by simp
qed

lemma pad_hunk_numbers:
  "\<exists>a. \<forall>i < length (pad_hunk ctx content hunk). fst (pad_hunk ctx content hunk ! i) = a + int i"
  unfolding pad_hunk_def by (auto simp: zip_upto_fst simp del: length_zip nth_zip)

lemma classify_eq:
  "classify fs h = Inr hunks \<longleftrightarrow>
     (\<exists>content. fs (src_path h) = Some content
        \<and> hunks = map (classify_hunk h) (map (pad_hunk (lines_of_context h) content) (hunkify h)))"
  by (auto simp: classify_def code_and_context_def split: option.splits)

lemma classify_line_fields [simp]:
  "line_num (classify_line h p) = fst p" "line_code (classify_line h p) = snd p"
  by (simp_all add: classify_line_def)

lemma classify_line_type:
  "line_type (classify_line h p) =
     (if fst p \<in> set (line_numbers h) then ''VIOLATION''
      else if fst p \<in> set (lines_changed (diff_reporter h) (src_path h)) then ''NEWCONTEXT''
      else ''OLDCONTEXT'')"
  by (simp add: classify_line_def)

text \<open>
  A hunk that starts after line \<open>ctx\<close> gets the window from \<open>ctx\<close> lines before its first
  line to \<open>ctx\<close> lines after its last line, cut at the end of the file, and every number
  of the window is paired with the text of that line of the file.
\<close>

lemma pad_hunk_inside:
  assumes "0 \<le> ctx" "ctx < hd hunk" "hd hunk \<le> last hunk"
  shows "pad_hunk ctx content hunk =
           map (\<lambda>n. (n, content ! nat (n - 1)))
               [hd hunk - ctx .. min (last hunk + ctx) (int (length content))]"
proof -
  define a where "a = hd hunk - ctx"
  define b where "b = last hunk + ctx"
  define n where "n = int (length content)"
  have ab: "1 \<le> a" "a \<le> b" using assms by (simp_all add: a_def b_def)
  have p: "pad_hunk ctx content hunk = zip [a..b] (slice content (a - 1) b)"
    using assms by (simp add: pad_hunk_def a_def b_def)
  show ?thesis
  proof (cases "n < a")
    case True
    then have "slice content (a - 1) b = []"
      using ab by (simp add: slice_def slice_bound_def n_def Let_def)
    moreover have "[a .. min b n] = []" using True by simp
    ultimately show ?thesis by (simp add: p a_def b_def n_def)
  next
    case False
    define l where "l = nat (a - 1)"
    define k where "k = nat (min b n - (a - 1))"
    have s: "slice content (a - 1) b = take k (drop l content)"
      using ab False by (simp add: slice_def slice_bound_def n_def Let_def min_def k_def l_def)
    have l: "int l = a - 1" "l \<le> length content" using ab False by (simp_all add: l_def n_def)
    have k: "int k = min b n - (a - 1)" using ab False by (simp add: k_def)
    have kb: "k \<le> nat (b - a + 1)" using k by linarith
    have kc: "k \<le> length content - l" using k l by (simp add: n_def)
    have len: "length (zip [a..b] (take k (drop l content))) = k"
      using kb kc by simp
    have len': "length [a..min b n] = k" using k by simp
    show ?thesis
      unfolding p s a_def [symmetric] b_def [symmetric] n_def [symmetric]
    proof (rule nth_equalityI)
      show "length (zip [a..b] (take k (drop l content)))
              = length (map (\<lambda>n. (n, content ! nat (n - 1))) [a..min b n])"
        by (simp only: len len' length_map)
    next
      fix i
      assume "i < length (zip [a..b] (take k (drop l content)))"
      then have i: "i < k" by (simp only: len)
      then have ib: "a + int i \<le> b" and im: "a + int i \<le> min b n" using k by linarith+
      have x: "[a..b] ! i = a + int i" using ib by (rule nth_upto)
      have x': "[a..min b n] ! i = a + int i" using im by (rule nth_upto)
      have "take k (drop l content) ! i = drop l content ! i" using i by simp
      also have "\<dots> = content ! (l + i)" using l(2) by simp
      also have "l + i = nat (a + int i - 1)" using l(1) by linarith
      finally have y: "take k (drop l content) ! i = content ! nat (a + int i - 1)" .
      have "zip [a..b] (take k (drop l content)) ! i = (a + int i, content ! nat (a + int i - 1))"
        using i len x y by (simp only: nth_zip length_zip min_less_iff_conj)
      moreover have "map (\<lambda>n. (n, content ! nat (n - 1))) [a..min b n] ! i
                       = (a + int i, content ! nat (a + int i - 1))"
        using i len' x' by simp
      ultimately show "zip [a..b] (take k (drop l content)) ! i
                   = map (\<lambda>n. (n, content ! nat (n - 1))) [a..min b n] ! i"
        by simp
    qed
  qed
qed

text \<open>
  Claim C2. The window of a hunk should be \<open>[max(first - R, 1) .. last + R]\<close>, each number
  paired with the text of that line, so that the missing line 1 gives the window
  \<open>[1..3]\<close>. In a file of twelve lines, the hunk \<open>[1]\<close> (of the missing lines 1 and 10)
  gets the numbers 0, 1, 2, paired with the text of the lines 1, 2, 3; the hunk \<open>[2]\<close>
  gets no line at all, since its slice starts at index \<open>-1\<close>, the last line of the file;
  and for the single missing line 1 there is no hunk to pad.
\<close>

theorem code_and_context_at_file_start:
  "code_and_context (example_files [l1, l2, l3, l4, l5, l6, l7, l8, l9, l10, l11, l12])
       (Hunker_init ''a.py'' [1, 10] dr) = Inr [[(0, l1), (1, l2), (2, l3)]]
   \<and> code_and_context (example_files [l1, l2, l3, l4, l5, l6, l7, l8, l9, l10, l11, l12])
       (Hunker_init ''a.py'' [2, 10] dr) = Inr [[]]
   \<and> code_and_context (example_files [l1, l2, l3, l4, l5, l6, l7, l8, l9, l10, l11, l12])
       (Hunker_init ''a.py'' [1] dr) = Inr []"
  by (simp add: code_and_context_def example_files_def hunkify_def Hunker_init_def pad_hunk_def
      slice_def slice_bound_def upto.simps)

lemma classify_hunk_unzip: "map (\<lambda>l. (line_num l, line_code l)) (classify_hunk h p) = p"
  by (simp add: classify_hunk_def comp_def)

text \<open>
  Claim C6. In every classified hunk, the lines are those of the padded window in the same
  order, and a line is tagged VIOLATION if its number is a missing line, else NEWCONTEXT if
  its number is a changed line of the diff, else OLDCONTEXT. The window \<open>[8..12]\<close> with the
  missing line 10 and the changed lines 9, 10, 11 is tagged OLDCONTEXT, NEWCONTEXT,
  VIOLATION, NEWCONTEXT, OLDCONTEXT.
\<close>

theorem classify_rule:
  "(classify fs h = Inr hunks \<longrightarrow>
      code_and_context fs h = Inr (map (map (\<lambda>l. (line_num l, line_code l))) hunks)
      \<and> (\<forall>hunk \<in> set hunks. \<forall>l \<in> set hunk.
            line_type l =
              (if line_num l \<in> set (line_numbers h) then ''VIOLATION''
               else if line_num l \<in> set (lines_changed (diff_reporter h) (src_path h))
               then ''NEWCONTEXT'' else ''OLDCONTEXT'')))
   \<and> map (\<lambda>l. (line_num l, line_type l))
         (classify_hunk
            (Hunker_init src [10] \<lparr>src_paths_changed = ps, lines_changed = (\<lambda>p. [9, 10, 11])\<rparr>)
            [(8, c8), (9, c9), (10, c10), (11, c11), (12, c12)])
       = [(8, ''OLDCONTEXT''), (9, ''NEWCONTEXT''), (10, ''VIOLATION''),
          (11, ''NEWCONTEXT''), (12, ''OLDCONTEXT'')]"
proof (intro conjI impI ballI)
  assume "classify fs h = Inr hunks"
  then obtain content where c: "fs (src_path h) = Some content"
    and hunks: "hunks = map (classify_hunk h) (map (pad_hunk (lines_of_context h) content) (hunkify h))"
    by (auto simp: classify_eq)
  show "code_and_context fs h = Inr (map (map (\<lambda>l. (line_num l, line_code l))) hunks)"
    by (simp add: code_and_context_def c hunks comp_def classify_hunk_unzip)
  fix hunk l
  assume "hunk \<in> set hunks" "l \<in> set hunk"
  then obtain p where "l = classify_line h p" by (auto simp: hunks classify_hunk_def)
  then show "line_type l =
                 (if line_num l \<in> set (line_numbers h) then ''VIOLATION''
                  else if line_num l \<in> set (lines_changed (diff_reporter h) (src_path h))
                  then ''NEWCONTEXT'' else ''OLDCONTEXT'')"
    by (simp add: classify_line_type)
next
  show "map (\<lambda>l. (line_num l, line_type l))
         (classify_hunk
            (Hunker_init src [10] \<lparr>src_paths_changed = ps, lines_changed = (\<lambda>p. [9, 10, 11])\<rparr>)
            [(8, c8), (9, c9), (10, c10), (11, c11), (12, c12)])
       = [(8, ''OLDCONTEXT''), (9, ''NEWCONTEXT''), (10, ''VIOLATION''),
          (11, ''NEWCONTEXT''), (12, ''OLDCONTEXT'')]"
    by (simp add: classify_hunk_def classify_line_def Hunker_init_def)
qed

lemma example_classify:
  "classify (example_files example_content) example_hunker = Inr [example_hunk]"
  by (simp add: classify_def code_and_context_def example_files_def example_content_def
      example_hunker_def example_hunk_def hunkify_def Hunker_init_def pad_hunk_def slice_def
      slice_bound_def upto.simps classify_hunk_def classify_line_def)

theorem classify_rule_witness:
  "classify (example_files example_content) example_hunker = Inr [example_hunk]
   \<and> code_and_context (example_files example_content) example_hunker
       = Inr [[(8, ''h''), (9, ''i''), (10, ''j''), (11, ''k''), (12, ''l'')]]
   \<and> line_numbers example_hunker = [10, 20]
   \<and> lines_changed (diff_reporter example_hunker) (src_path example_hunker) = [9, 10, 11, 20]
   \<and> map line_type example_hunk
       = [''OLDCONTEXT'', ''NEWCONTEXT'', ''VIOLATION'', ''NEWCONTEXT'', ''OLDCONTEXT'']"
proof -
  note r = classify_rule [of "example_files example_content" example_hunker "[example_hunk]",
      THEN conjunct1, THEN mp, OF example_classify]
  from r have "code_and_context (example_files example_content) example_hunker
                 = Inr (map (map (\<lambda>l. (line_num l, line_code l))) [example_hunk])"
    by (rule conjunct1)
  then have a: "code_and_context (example_files example_content) example_hunker
       = Inr [[(8, ''h''), (9, ''i''), (10, ''j''), (11, ''k''), (12, ''l'')]]"
    by (simp add: example_hunk_def)
  have b: "line_numbers example_hunker = [10, 20]"
    "lines_changed (diff_reporter example_hunker) (src_path example_hunker) = [9, 10, 11, 20]"
    by (simp_all add: example_hunker_def Hunker_init_def)
  from r have "\<forall>hunk \<in> set [example_hunk]. \<forall>l \<in> set hunk.
               line_type l =
                 (if line_num l \<in> set (line_numbers example_hunker) then ''VIOLATION''
                  else if line_num l \<in> set (lines_changed (diff_reporter example_hunker)
                                                 (src_path example_hunker))
                  then ''NEWCONTEXT'' else ''OLDCONTEXT'')"
    by (rule conjunct2)
  then have "map line_type example_hunk
       = map (\<lambda>l. if line_num l \<in> set [10, 20] then ''VIOLATION''
                  else if line_num l \<in> set [9, 10, 11, 20] then ''NEWCONTEXT'' else ''OLDCONTEXT'')
             example_hunk"
    unfolding b by (intro map_cong refl) simp
  also have "\<dots> = [''OLDCONTEXT'', ''NEWCONTEXT'', ''VIOLATION'', ''NEWCONTEXT'', ''OLDCONTEXT'']"
    by (simp add: example_hunk_def)
  finally show ?thesis using example_classify a b by (intro conjI)
qed

lemma classify_line_tag:
  "line_type (classify_line h p) = ''VIOLATION'' \<or> line_type (classify_line h p) = ''NEWCONTEXT''
   \<or> line_type (classify_line h p) = ''OLDCONTEXT''"
  by (simp add: classify_line_def)

text \<open>
  Claim C10. In every classified hunk that \<^verbatim>\<open>classify\<close> returns, each line number is one
  more than the one before it, and every tag is one of the strings \<^verbatim>\<open>VIOLATION\<close>,
  \<^verbatim>\<open>NEWCONTEXT\<close> and \<^verbatim>\<open>OLDCONTEXT\<close>.
\<close>

theorem classify_consecutive_tagged:
  assumes "classify fs h = Inr hunks" "hunk \<in> set hunks"
  shows "(\<forall>i. Suc i < length hunk \<longrightarrow> line_num (hunk ! Suc i) = line_num (hunk ! i) + 1)
         \<and> (\<forall>l \<in> set hunk. line_type l = ''VIOLATION'' \<or> line_type l = ''NEWCONTEXT''
                                \<or> line_type l = ''OLDCONTEXT'')"
proof -
  from assms obtain content raw where
    hunk: "hunk = classify_hunk h (pad_hunk (lines_of_context h) content raw)"
    by (auto simp: classify_eq)
  let ?p = "pad_hunk (lines_of_context h) content raw"
  obtain a where a: "\<forall>i < length ?p. fst (?p ! i) = a + int i"
    using pad_hunk_numbers by blast
  have "line_num (hunk ! Suc i) = line_num (hunk ! i) + 1" if "Suc i < length hunk" for i
  proof -
    from that have "Suc i < length ?p" "i < length ?p" by (simp_all add: hunk classify_hunk_def)
    then show ?thesis using a by (simp add: hunk classify_hunk_def)
  qed
  moreover have "line_type l = ''VIOLATION'' \<or> line_type l = ''NEWCONTEXT'' \<or> line_type l = ''OLDCONTEXT''"
    if "l \<in> set hunk" for l
  proof -
    from that obtain p where "l = classify_line h p" by (auto simp: hunk classify_hunk_def)
    then show ?thesis by (simp only: classify_line_tag)
  qed
  ultimately show ?thesis by blast
qed

theorem classify_consecutive_tagged_witness:
  "classify (example_files example_content) example_hunker = Inr [example_hunk]
   \<and> example_hunk \<in> set [example_hunk]
   \<and> Suc 0 < length example_hunk
   \<and> line_num (example_hunk ! Suc 0) = line_num (example_hunk ! 0) + 1
   \<and> (line_type (example_hunk ! 2) = ''VIOLATION'' \<or> line_type (example_hunk ! 2) = ''NEWCONTEXT''
        \<or> line_type (example_hunk ! 2) = ''OLDCONTEXT'')"
proof -
  have m: "example_hunk \<in> set [example_hunk]" by simp
  have l: "Suc 0 < length example_hunk" and e: "example_hunk ! 2 \<in> set example_hunk"
    by (simp_all add: example_hunk_def)
  from classify_consecutive_tagged [OF example_classify m]
  have "\<forall>i. Suc i < length example_hunk
            \<longrightarrow> line_num (example_hunk ! Suc i) = line_num (example_hunk ! i) + 1"
    and "\<forall>l \<in> set example_hunk. line_type l = ''VIOLATION'' \<or> line_type l = ''NEWCONTEXT''
                                    \<or> line_type l = ''OLDCONTEXT''"
    by (rule conjunct1, rule conjunct2)
  with l e have "line_num (example_hunk ! Suc 0) = line_num (example_hunk ! 0) + 1"
    and "line_type (example_hunk ! 2) = ''VIOLATION'' \<or> line_type (example_hunk ! 2) = ''NEWCONTEXT''
           \<or> line_type (example_hunk ! 2) = ''OLDCONTEXT''"
    by blast+
  with example_classify m l show ?thesis by (intro conjI)
qed

end
